theory Spec2Isabelle
  imports Main
begin

section \<open>Values, errors and the Game interface\<close>

text \<open>
  The searches compare Python floats that are either a utility or one of the sentinels
  \<^verbatim>\<open>float('-inf')\<close> and \<^verbatim>\<open>float('inf')\<close>. Only \<^verbatim>\<open><\<close>, \<^verbatim>\<open>>\<close>, \<^verbatim>\<open><=\<close>, \<^verbatim>\<open>>=\<close>,
  \<^verbatim>\<open>max\<close> and \<^verbatim>\<open>min\<close> are applied to them, so a value is an element of a linear order
  extended by the two infinities (NaN is not a value of the model).
\<close>

datatype 'v ext = MInf | Fin 'v | PInf

instantiation ext :: (linorder) linorder
begin

fun less_eq_ext :: "'a ext \<Rightarrow> 'a ext \<Rightarrow> bool" where
  "less_eq_ext MInf y = True"
| "less_eq_ext (Fin a) MInf = False"
| "less_eq_ext (Fin a) (Fin b) = (a \<le> b)"
| "less_eq_ext (Fin a) PInf = True"
| "less_eq_ext PInf PInf = True"
| "less_eq_ext PInf y = False"

definition less_ext :: "'a ext \<Rightarrow> 'a ext \<Rightarrow> bool" where
  "less_ext x y = (x \<le> y \<and> \<not> y \<le> x)"

instance
proof
  fix x y z :: "'a ext"
  show "(x < y) = (x \<le> y \<and> \<not> y \<le> x)" by (simp add: less_ext_def)
  show "x \<le> x" by (cases x) simp_all
  show "x \<le> y \<Longrightarrow> y \<le> z \<Longrightarrow> x \<le> z"
    by (cases x; cases y; cases z) simp_all
  show "x \<le> y \<Longrightarrow> y \<le> x \<Longrightarrow> x = y"
    by (cases x; cases y) simp_all
  show "x \<le> y \<or> y \<le> x"
    by (cases x; cases y) auto
qed

end

text \<open>The exceptions the modelled code can raise.\<close>

datatype error =
    ValueError   \<comment> \<open>\<^verbatim>\<open>NimGame.utility\<close> on a non-terminal state\<close>
  | IndexError   \<comment> \<open>\<^verbatim>\<open>random.choice\<close> on an empty list\<close>
  | TypeError    \<comment> \<open>\<^verbatim>\<open>game.result(s, None)\<close>: the demonstration game computes \<^verbatim>\<open>tokens - None\<close>\<close>

text \<open>
  Class \<^verbatim>\<open>Game\<close> (both source files): the five operations a concrete game provides.
  \<^verbatim>\<open>is_terminal\<close> is called \<^verbatim>\<open>terminal_test\<close> in \<^verbatim>\<open>minimax_adversary.py\<close>.
  \<^verbatim>\<open>utility\<close> may raise, so it returns a sum.
\<close>

record ('s, 'a, 'p, 'v) game =
  actions :: "'s \<Rightarrow> 'a list"
  result :: "'s \<Rightarrow> 'a \<Rightarrow> 's"
  is_terminal :: "'s \<Rightarrow> bool"
  utility :: "'s \<Rightarrow> 'p \<Rightarrow> error + 'v ext"
  to_move :: "'s \<Rightarrow> 'p"

section \<open>Alpha-beta search (alpha\_beta\_prunning.py)\<close>

text \<open>
  The recursion of \<^verbatim>\<open>max_value\<close> and \<^verbatim>\<open>min_value\<close> follows the game tree, which the
  engine does not bound. The model takes fuel: the number of nested calls of
  \<^verbatim>\<open>max_value\<close>/\<^verbatim>\<open>min_value\<close> that may be open at once. \<open>None\<close> means the fuel ran
  out, \<open>Some (Inl e)\<close> that exception \<open>e\<close> was raised, \<open>Some (Inr x)\<close> that \<open>x\<close> was
  returned.
\<close>

type_synonym ('v, 'a) ab_result = "(error + 'v ext \<times> 'a option) option"

text \<open>
  The \<^verbatim>\<open>for a in game.actions(state)\<close> loop of \<^verbatim>\<open>max_value\<close>, on the actions still to
  visit, with the loop variables \<open>v\<close>, \<open>best_move\<close> and \<open>alpha\<close>; \<open>ev\<close> evaluates a child.
\<close>

fun max_loop ::
  "('s \<Rightarrow> 'v::linorder ext \<Rightarrow> 'v ext \<Rightarrow> ('v, 'a) ab_result) \<Rightarrow> ('s, 'a, 'p, 'v) game \<Rightarrow> 's \<Rightarrow>
   'a list \<Rightarrow> 'v ext \<Rightarrow> 'a option \<Rightarrow> 'v ext \<Rightarrow> 'v ext \<Rightarrow> ('v, 'a) ab_result" where
  "max_loop ev g s [] v best_move alpha beta = Some (Inr (v, best_move))"
| "max_loop ev g s (a # as) v best_move alpha beta =
     (case ev (result g s a) alpha beta of
        None \<Rightarrow> None
      | Some (Inl e) \<Rightarrow> Some (Inl e)
      | Some (Inr (v2, _)) \<Rightarrow>
          (let (v', best_move') = (if v2 > v then (v2, Some a) else (v, best_move))
           in if v' \<ge> beta then Some (Inr (v', best_move'))
              else max_loop ev g s as v' best_move' (max alpha v') beta))"

fun min_loop ::
  "('s \<Rightarrow> 'v::linorder ext \<Rightarrow> 'v ext \<Rightarrow> ('v, 'a) ab_result) \<Rightarrow> ('s, 'a, 'p, 'v) game \<Rightarrow> 's \<Rightarrow>
   'a list \<Rightarrow> 'v ext \<Rightarrow> 'a option \<Rightarrow> 'v ext \<Rightarrow> 'v ext \<Rightarrow> ('v, 'a) ab_result" where
  "min_loop ev g s [] v best_move alpha beta = Some (Inr (v, best_move))"
| "min_loop ev g s (a # as) v best_move alpha beta =
     (case ev (result g s a) alpha beta of
        None \<Rightarrow> None
      | Some (Inl e) \<Rightarrow> Some (Inl e)
      | Some (Inr (v2, _)) \<Rightarrow>
          (let (v', best_move') = (if v2 < v then (v2, Some a) else (v, best_move))
           in if v' \<le> alpha then Some (Inr (v', best_move'))
              else min_loop ev g s as v' best_move' alpha (min beta v')))"

fun max_value ::
  "nat \<Rightarrow> ('s, 'a, 'p, 'v::linorder) game \<Rightarrow> 's \<Rightarrow> 'p \<Rightarrow> 'v ext \<Rightarrow> 'v ext \<Rightarrow> ('v, 'a) ab_result"
and min_value ::
  "nat \<Rightarrow> ('s, 'a, 'p, 'v::linorder) game \<Rightarrow> 's \<Rightarrow> 'p \<Rightarrow> 'v ext \<Rightarrow> 'v ext \<Rightarrow> ('v, 'a) ab_result"
where
  "max_value 0 g s p alpha beta = None"
| "max_value (Suc n) g s p alpha beta =
     (if is_terminal g s then
        (case utility g s p of Inl e \<Rightarrow> Some (Inl e) | Inr u \<Rightarrow> Some (Inr (u, None)))
      else max_loop (\<lambda>s' a b. min_value n g s' p a b) g s (actions g s) MInf None alpha beta)"
| "min_value 0 g s p alpha beta = None"
| "min_value (Suc n) g s p alpha beta =
     (if is_terminal g s then
        (case utility g s p of Inl e \<Rightarrow> Some (Inl e) | Inr u \<Rightarrow> Some (Inr (u, None)))
      else min_loop (\<lambda>s' a b. max_value n g s' p a b) g s (actions g s) PInf None alpha beta)"

definition alpha_beta_search ::
  "nat \<Rightarrow> ('s, 'a, 'p, 'v::linorder) game \<Rightarrow> 's \<Rightarrow> (error + 'a option) option" where
  "alpha_beta_search n g state =
     (let player = to_move g state
      in case max_value n g state player MInf PInf of
           None \<Rightarrow> None
         | Some (Inl e) \<Rightarrow> Some (Inl e)
         | Some (Inr (value, move)) \<Rightarrow> Some (Inr move))"

section \<open>Adversary strategies (minimax\_adversary.py)\<close>

text \<open>
  \<^verbatim>\<open>RandomAdversary\<close> reads Python's global random generator. The model threads the
  entropy source through every call of the adversary-parameterized search: an \<open>rng\<close> is
  the sequence of the draws still to come, and a draw consumes its head.
\<close>

type_synonym rng = "nat \<Rightarrow> nat"

type_synonym 'x comp = "rng \<Rightarrow> (error + 'x \<times> rng) option"

text \<open>
  \<^verbatim>\<open>random.choice(seq)\<close> (standard library): raises \<^verbatim>\<open>IndexError\<close> on an empty sequence,
  otherwise returns \<^verbatim>\<open>seq[i]\<close> for an index \<open>i\<close> below \<^verbatim>\<open>len(seq)\<close> that the generator
  picks; here the index is the next draw reduced modulo the length, so that every
  sequence of in-range indices arises from some entropy source.
\<close>

definition random_choice :: "'a list \<Rightarrow> 'a comp" where
  "random_choice seq r =
     (if seq = [] then Some (Inl IndexError)
      else Some (Inr (seq ! (r 0 mod length seq), \<lambda>i. r (Suc i))))"

datatype ('s, 'v) adversary =
    OptimalAdversary
  | RandomAdversary
  | HeuristicAdversary "'s \<Rightarrow> 'v ext"

text \<open>
  The loop of \<^verbatim>\<open>OptimalAdversary.choose_action\<close> with its variables \<open>best_action\<close> and
  \<open>best_value\<close>; the evaluator is the closure \<^verbatim>\<open>lambda st: max_value(st)\<close>, which runs the
  search and therefore takes and returns the entropy source.
\<close>

fun optimal_loop ::
  "('s \<Rightarrow> 'v::linorder ext comp) \<Rightarrow> ('s, 'a, 'p, 'v) game \<Rightarrow> 's \<Rightarrow> 'a list \<Rightarrow>
   'a option \<Rightarrow> 'v ext \<Rightarrow> ('a option \<times> 'v ext) comp" where
  "optimal_loop evaluator g s [] best_action best_value r =
     Some (Inr ((best_action, best_value), r))"
| "optimal_loop evaluator g s (a # as) best_action best_value r =
     (case evaluator (result g s a) r of
        None \<Rightarrow> None
      | Some (Inl e) \<Rightarrow> Some (Inl e)
      | Some (Inr (val, r')) \<Rightarrow>
          (if val < best_value then optimal_loop evaluator g s as (Some a) val r'
           else optimal_loop evaluator g s as best_action best_value r'))"

text \<open>The loop of \<^verbatim>\<open>HeuristicAdversary.choose_action\<close>.\<close>

fun heuristic_loop ::
  "('s \<Rightarrow> 'v::linorder ext) \<Rightarrow> ('s, 'a, 'p, 'v) game \<Rightarrow> 's \<Rightarrow> 'a list \<Rightarrow>
   'a option \<Rightarrow> 'v ext \<Rightarrow> 'a option \<times> 'v ext" where
  "heuristic_loop heuristic g s [] best_action best_value = (best_action, best_value)"
| "heuristic_loop heuristic g s (a # as) best_action best_value =
     (let val = heuristic (result g s a)
      in if val < best_value then heuristic_loop heuristic g s as (Some a) val
         else heuristic_loop heuristic g s as best_action best_value)"

text \<open>
  \<^verbatim>\<open>choose_action(state, actions, game, evaluator, opponent)\<close> of the three classes. The
  returned action is Python's \<^verbatim>\<open>None\<close> when the loop never assigned \<open>best_action\<close>.
\<close>

fun choose_action ::
  "('s, 'v::linorder) adversary \<Rightarrow> 's \<Rightarrow> 'a list \<Rightarrow> ('s, 'a, 'p, 'v) game \<Rightarrow>
   ('s \<Rightarrow> 'v ext comp) \<Rightarrow> 'p \<Rightarrow> 'a option comp" where
  "choose_action OptimalAdversary state acts g evaluator opponent r =
     (case optimal_loop evaluator g state acts None PInf r of
        None \<Rightarrow> None
      | Some (Inl e) \<Rightarrow> Some (Inl e)
      | Some (Inr ((best_action, best_value), r')) \<Rightarrow> Some (Inr (best_action, r')))"
| "choose_action RandomAdversary state acts g evaluator opponent r =
     (case random_choice acts r of
        None \<Rightarrow> None
      | Some (Inl e) \<Rightarrow> Some (Inl e)
      | Some (Inr (a, r')) \<Rightarrow> Some (Inr (Some a, r')))"
| "choose_action (HeuristicAdversary heuristic) state acts g evaluator opponent r =
     Some (Inr (fst (heuristic_loop heuristic g state acts None PInf), r))"

section \<open>Minimax with an adversary (minimax\_adversary.py)\<close>

text \<open>The loops of the nested \<^verbatim>\<open>max_value\<close> and of the \<^verbatim>\<open>adversary is None\<close> branch of
  the nested \<^verbatim>\<open>min_value\<close>.\<close>

fun mm_max_loop ::
  "('s \<Rightarrow> 'v::linorder ext comp) \<Rightarrow> ('s, 'a, 'p, 'v) game \<Rightarrow> 's \<Rightarrow> 'a list \<Rightarrow> 'v ext \<Rightarrow>
   'v ext comp" where
  "mm_max_loop ev g s [] v r = Some (Inr (v, r))"
| "mm_max_loop ev g s (a # as) v r =
     (case ev (result g s a) r of
        None \<Rightarrow> None
      | Some (Inl e) \<Rightarrow> Some (Inl e)
      | Some (Inr (v2, r')) \<Rightarrow> mm_max_loop ev g s as (max v v2) r')"

fun mm_min_loop ::
  "('s \<Rightarrow> 'v::linorder ext comp) \<Rightarrow> ('s, 'a, 'p, 'v) game \<Rightarrow> 's \<Rightarrow> 'a list \<Rightarrow> 'v ext \<Rightarrow>
   'v ext comp" where
  "mm_min_loop ev g s [] v r = Some (Inr (v, r))"
| "mm_min_loop ev g s (a # as) v r =
     (case ev (result g s a) r of
        None \<Rightarrow> None
      | Some (Inl e) \<Rightarrow> Some (Inl e)
      | Some (Inr (v2, r')) \<Rightarrow> mm_min_loop ev g s as (min v v2) r')"

text \<open>
  The nested functions \<^verbatim>\<open>max_value(s)\<close> and \<^verbatim>\<open>min_value(s)\<close> of \<^verbatim>\<open>minimax_decision\<close>;
  \<open>g\<close>, \<open>player\<close> and \<open>adversary\<close> are the variables they close over, the fuel is as in
  the alpha-beta search. When the adversary returns \<^verbatim>\<open>None\<close>, the call
  \<^verbatim>\<open>game.result(s, None)\<close> is the error \<open>TypeError\<close>, as in the demonstration game.
\<close>

fun mm_max_value ::
  "nat \<Rightarrow> ('s, 'a, 'p, 'v::linorder) game \<Rightarrow> 'p \<Rightarrow> ('s, 'v) adversary option \<Rightarrow> 's \<Rightarrow>
   'v ext comp"
and mm_min_value ::
  "nat \<Rightarrow> ('s, 'a, 'p, 'v::linorder) game \<Rightarrow> 'p \<Rightarrow> ('s, 'v) adversary option \<Rightarrow> 's \<Rightarrow>
   'v ext comp"
where
  "mm_max_value 0 g player adversary s r = None"
| "mm_max_value (Suc n) g player adversary s r =
     (if is_terminal g s then
        (case utility g s player of Inl e \<Rightarrow> Some (Inl e) | Inr u \<Rightarrow> Some (Inr (u, r)))
      else mm_max_loop (\<lambda>s' r'. mm_min_value n g player adversary s' r') g s (actions g s) MInf r)"
| "mm_min_value 0 g player adversary s r = None"
| "mm_min_value (Suc n) g player adversary s r =
     (if is_terminal g s then
        (case utility g s player of Inl e \<Rightarrow> Some (Inl e) | Inr u \<Rightarrow> Some (Inr (u, r)))
      else
        (case adversary of
           None \<Rightarrow>
             mm_min_loop (\<lambda>s' r'. mm_max_value n g player adversary s' r') g s (actions g s) PInf r
         | Some adv \<Rightarrow>
             (case choose_action adv s (actions g s) g
                     (\<lambda>st r'. mm_max_value n g player adversary st r') (to_move g s) r of
                None \<Rightarrow> None
              | Some (Inl e) \<Rightarrow> Some (Inl e)
              | Some (Inr (None, r')) \<Rightarrow> Some (Inl TypeError)
              | Some (Inr (Some chosen, r')) \<Rightarrow>
                  mm_max_value n g player adversary (result g s chosen) r')))"

text \<open>The root loop of \<^verbatim>\<open>minimax_decision\<close>, with \<open>best_action\<close> and \<open>best_value\<close>.\<close>

fun root_loop ::
  "('s \<Rightarrow> 'v::linorder ext comp) \<Rightarrow> ('s, 'a, 'p, 'v) game \<Rightarrow> 's \<Rightarrow> 'a list \<Rightarrow>
   'a option \<Rightarrow> 'v ext \<Rightarrow> ('a option \<times> 'v ext) comp" where
  "root_loop ev g state [] best_action best_value r = Some (Inr ((best_action, best_value), r))"
| "root_loop ev g state (a # as) best_action best_value r =
     (case ev (result g state a) r of
        None \<Rightarrow> None
      | Some (Inl e) \<Rightarrow> Some (Inl e)
      | Some (Inr (val, r')) \<Rightarrow>
          (if val > best_value then root_loop ev g state as (Some a) val r'
           else root_loop ev g state as best_action best_value r'))"

definition minimax_decision ::
  "nat \<Rightarrow> 's \<Rightarrow> ('s, 'a, 'p, 'v::linorder) game \<Rightarrow> 'p \<Rightarrow> ('s, 'v) adversary option \<Rightarrow>
   'a option comp" where
  "minimax_decision n state g player adversary r =
     (case root_loop (\<lambda>s' r'. mm_min_value n g player adversary s' r') g state (actions g state)
             None MInf r of
        None \<Rightarrow> None
      | Some (Inl e) \<Rightarrow> Some (Inl e)
      | Some (Inr ((best_action, best_value), r')) \<Rightarrow> Some (Inr (best_action, r')))"

section \<open>The demonstration game: Nim\<close>

text \<open>
  Class \<^verbatim>\<open>NimGame\<close>, the same in both files up to the name of the terminal test and
  \<^verbatim>\<open>1\<close>/\<^verbatim>\<open>-1\<close> against \<^verbatim>\<open>1.0\<close>/\<^verbatim>\<open>-1.0\<close>. A state is the tuple \<^verbatim>\<open>(tokens, to_move)\<close> of
  a Python int and a string.
\<close>

type_synonym nim_state = "int \<times> string"

definition nim_actions :: "int \<Rightarrow> nim_state \<Rightarrow> int list" where
  "nim_actions max_take state = (case state of (tokens, _) \<Rightarrow> [1..min max_take tokens])"

definition nim_result :: "nim_state \<Rightarrow> int \<Rightarrow> nim_state" where
  "nim_result state action =
     (case state of (tokens, mover) \<Rightarrow>
        (let next_player = (if mover = ''A'' then ''B'' else ''A'')
         in (tokens - action, next_player)))"

definition nim_is_terminal :: "nim_state \<Rightarrow> bool" where
  "nim_is_terminal state = (case state of (tokens, _) \<Rightarrow> tokens = 0)"

definition nim_utility :: "nim_state \<Rightarrow> string \<Rightarrow> error + int ext" where
  "nim_utility state player =
     (case state of (tokens, mover) \<Rightarrow>
        if tokens \<noteq> 0 then Inl ValueError
        else (let loser = mover;
                  winner = (if loser = ''A'' then ''B'' else ''A'')
              in Inr (Fin (if winner = player then 1 else - 1))))"

definition nim_to_move :: "nim_state \<Rightarrow> string" where
  "nim_to_move state = snd state"

definition NimGame :: "int \<Rightarrow> (nim_state, int, string, int) game" where
  "NimGame max_take =
     \<lparr> actions = nim_actions max_take,
       result = nim_result,
       is_terminal = nim_is_terminal,
       utility = nim_utility,
       to_move = nim_to_move \<rparr>"

section \<open>Specification predicates\<close>

text \<open>
  The scores that one call of \<open>OptimalAdversary.choose_action\<close> obtains from its
  evaluator for the listed actions, in the order of the loop; each evaluation starts from
  the entropy source the previous one left. The list stops where an evaluation does not
  return.
\<close>

fun optimal_scores ::
  "('s \<Rightarrow> 'v::linorder ext comp) \<Rightarrow> ('s, 'a, 'p, 'v) game \<Rightarrow> 's \<Rightarrow> 'a list \<Rightarrow> rng \<Rightarrow>
   'v ext list" where
  "optimal_scores evaluator g s [] r = []"
| "optimal_scores evaluator g s (a # as) r =
     (case evaluator (result g s a) r of
        Some (Inr (val, r')) \<Rightarrow> val # optimal_scores evaluator g s as r'
      | _ \<Rightarrow> [])"

text \<open>
  What a fail-soft alpha-beta evaluation \<open>v\<close> with window \<open>(alpha, beta)\<close> tells about the
  true minimax value \<open>t\<close>: at or below the window it is an upper bound, strictly inside
  the window it is exact, at or above the window it is a lower bound.
\<close>

definition within :: "'w::linorder \<Rightarrow> 'w \<Rightarrow> 'w \<Rightarrow> 'w \<Rightarrow> bool" where
  "within alpha beta t v \<longleftrightarrow>
     (v \<le> alpha \<longrightarrow> t \<le> v) \<and> (alpha < v \<and> v < beta \<longrightarrow> v = t) \<and> (beta \<le> v \<longrightarrow> v \<le> t)"

text \<open>
  A Game Model that conforms to the contract for \<open>player\<close> on a set \<open>S\<close> of states: on a
  terminal state the action enumeration is empty and \<open>utility\<close> returns a bounded (finite)
  value; a non-terminal state has at least one legal action, so that play can go on until a
  terminal state is reached, and every legal action leads to a state of \<open>S\<close> again.
\<close>

definition conforming :: "('s, 'a, 'p, 'v::linorder) game \<Rightarrow> 'p \<Rightarrow> 's set \<Rightarrow> bool" where
  "conforming g player S \<longleftrightarrow>
     (\<forall>s\<in>S.
        (is_terminal g s \<longrightarrow> actions g s = [] \<and> (\<exists>u. utility g s player = Inr (Fin u))) \<and>
        (\<not> is_terminal g s \<longrightarrow>
           actions g s \<noteq> [] \<and> (\<forall>a\<in>set (actions g s). result g s a \<in> S)))"

section \<open>The order on values\<close>

lemma ext_less_simps [simp]:
  "MInf < Fin a" "MInf < PInf" "Fin a < PInf" "(Fin a < Fin b) = (a < b)"
  "\<not> x < MInf" "\<not> PInf < x" "\<not> Fin a < MInf" "\<not> PInf < Fin a"
  by (cases x; auto simp: less_ext_def)+

lemma ext_le_simps [simp]: "x \<le> PInf" "(PInf \<le> x) = (x = PInf)" "(x \<le> MInf) = (x = MInf)"
  by (cases x; simp)+

lemma ext_less_PInf: "(x < PInf) = (x \<noteq> PInf)"
  by (cases x) simp_all

lemma ext_max_min_simps [simp]:
  "max MInf x = x" "max x MInf = x" "min PInf x = x" "min x PInf = x"
  "max PInf x = PInf" "max x PInf = PInf" "min MInf x = MInf" "min x MInf = MInf"
  by (cases x; simp add: max_def min_def)+

lemma ext_max_min_Fin [simp]:
  "max (Fin a) (Fin b) = Fin (max a b)" "min (Fin a) (Fin b) = Fin (min a b)"
  by (auto simp: max_def min_def)

section \<open>Properties of the demonstration game\<close>

lemmas nim_defs = NimGame_def nim_actions_def nim_result_def nim_is_terminal_def
  nim_utility_def nim_to_move_def

text \<open>
  Claim C3. For the subtraction game with \<open>max_take = 3\<close> and the initial state of 7 tokens
  with player A to move, \<open>alpha_beta_search\<close> returns the action 3, and
  \<open>minimax_decision\<close> for player A returns the action 3 both with no adversary and with
  an \<open>OptimalAdversary\<close>, whatever the entropy source.
\<close>

theorem nim_demo_take_three:
  "alpha_beta_search 8 (NimGame 3) (7, ''A'') = Some (Inr (Some 3)) \<and>
   minimax_decision 7 (7, ''A'') (NimGame 3) ''A'' None r = Some (Inr (Some 3, r)) \<and>
   minimax_decision 7 (7, ''A'') (NimGame 3) ''A'' (Some OptimalAdversary) r
     = Some (Inr (Some 3, r))"
  by (simp add: eval_nat_numeral nim_defs alpha_beta_search_def minimax_decision_def upto.simps)

text \<open>
  Claim C4. In the demonstration game, \<open>utility\<close> on a state whose token count is not zero
  raises \<open>ValueError\<close>, for every such state (reachable or not) and every player; on a
  terminal state it returns a value.
\<close>

theorem nim_utility_terminal_only:
  "(tokens \<noteq> 0 \<longrightarrow> utility (NimGame max_take) (tokens, mover) player = Inl ValueError) \<and>
   (tokens = 0 \<longrightarrow> (\<exists>u. utility (NimGame max_take) (tokens, mover) player = Inr u))"
  by (simp add: NimGame_def nim_utility_def)

theorem nim_utility_terminal_only_witness:
  "utility (NimGame 3) (7, ''A'') ''B'' = Inl ValueError \<and>
   (\<exists>u. utility (NimGame 3) (0, ''B'') ''A'' = Inr u)"
  using nim_utility_terminal_only [of 7 3 "''A''" "''B''"]
        nim_utility_terminal_only [of 0 3 "''B''" "''A''"]
  by simp

text \<open>
  Claim C9. For every terminal state of the demonstration game, the utility for player A
  is the negation of the utility for player B, and both are \<open>+1\<close> or \<open>-1\<close>.
\<close>

theorem nim_zero_sum:
  "is_terminal (NimGame max_take) s \<Longrightarrow>
   \<exists>u. utility (NimGame max_take) s ''A'' = Inr (Fin u) \<and>
       utility (NimGame max_take) s ''B'' = Inr (Fin (- u)) \<and> (u = 1 \<or> u = - 1)"
  by (cases s) (simp add: NimGame_def nim_utility_def nim_is_terminal_def)

theorem nim_zero_sum_witness:
  "is_terminal (NimGame 3) (0, ''A'') \<and>
   (\<exists>u. utility (NimGame 3) (0, ''A'') ''A'' = Inr (Fin u) \<and>
       utility (NimGame 3) (0, ''A'') ''B'' = Inr (Fin (- u)) \<and> (u = 1 \<or> u = - 1))"
proof -
  have t: "is_terminal (NimGame 3) (0, ''A'')"
    by (simp add: NimGame_def nim_is_terminal_def)
  from nim_zero_sum [OF t] t show ?thesis by simp
qed

section \<open>Edge cases of the two top-level operations\<close>

text \<open>
  Claim C10. On a state that is already terminal, where the game enumerates no action and
  (as the Game contract requires of a terminal state) \<open>utility\<close> returns a value, both
  top-level operations return no action: \<open>alpha_beta_search\<close> evaluates the utility and
  returns the \<open>None\<close> move, \<open>minimax_decision\<close> loops over the empty list and returns its
  initial \<open>None\<close>, for every player and adversary.
\<close>

theorem terminal_root_no_action:
  assumes "is_terminal g s" and "actions g s = []"
    and "utility g s (to_move g s) = Inr u"
  shows "alpha_beta_search (Suc n) g s = Some (Inr None) \<and>
         minimax_decision m s g player adversary r = Some (Inr (None, r))"
  using assms by (simp add: alpha_beta_search_def minimax_decision_def)

theorem terminal_root_no_action_witness:
  "is_terminal (NimGame 3) (0, ''B'') \<and> actions (NimGame 3) (0, ''B'') = [] \<and>
   alpha_beta_search (Suc 0) (NimGame 3) (0, ''B'') = Some (Inr None) \<and>
   minimax_decision 0 (0, ''B'') (NimGame 3) ''A'' None (\<lambda>_. 0) = Some (Inr (None, \<lambda>_. 0))"
proof -
  have t: "is_terminal (NimGame 3) (0, ''B'')"
    by (simp add: NimGame_def nim_is_terminal_def)
  have a: "actions (NimGame 3) (0, ''B'') = []"
    by (simp add: NimGame_def nim_actions_def)
  have u: "utility (NimGame 3) (0, ''B'') (to_move (NimGame 3) (0, ''B'')) = Inr (Fin (- 1))"
    by (simp add: NimGame_def nim_utility_def nim_to_move_def)
  from terminal_root_no_action [OF t a u, of 0 0 "''A''" None "\<lambda>_. 0"] t a show ?thesis by simp
qed

text \<open>
  Claim C6 (as amended). On a non-terminal state with no legal action, \<open>max_value\<close> and
  \<open>min_value\<close> of the alpha-beta search, the maximizing evaluation of the
  adversary-parameterized search and its minimizing evaluation without an adversary return
  the sentinel (\<open>-\<infinity>\<close> at a maximizing node, \<open>+\<infinity>\<close> at a minimizing node) with no chosen
  action and no error. With an adversary supplied the minimizing evaluation returns no
  sentinel: \<open>RandomAdversary\<close> raises \<open>IndexError\<close>, \<open>OptimalAdversary\<close> and
  \<open>HeuristicAdversary\<close> choose \<open>None\<close>, on which \<open>game.result\<close> fails.
\<close>

theorem empty_actions_sentinel:
  assumes "\<not> is_terminal g s" and "actions g s = []"
  shows "max_value (Suc n) g s p alpha beta = Some (Inr (MInf, None)) \<and>
         min_value (Suc n) g s p alpha beta = Some (Inr (PInf, None)) \<and>
         mm_max_value (Suc n) g p adversary s r = Some (Inr (MInf, r)) \<and>
         mm_min_value (Suc n) g p None s r = Some (Inr (PInf, r)) \<and>
         mm_min_value (Suc n) g p (Some RandomAdversary) s r = Some (Inl IndexError) \<and>
         mm_min_value (Suc n) g p (Some OptimalAdversary) s r = Some (Inl TypeError) \<and>
         mm_min_value (Suc n) g p (Some (HeuristicAdversary h)) s r = Some (Inl TypeError)"
  using assms by (simp add: random_choice_def)

theorem empty_actions_sentinel_witness:
  "\<not> is_terminal (NimGame 3) (- 1, ''B'') \<and> actions (NimGame 3) (- 1, ''B'') = [] \<and>
   max_value (Suc 0) (NimGame 3) (- 1, ''B'') ''A'' MInf PInf = Some (Inr (MInf, None)) \<and>
   min_value (Suc 0) (NimGame 3) (- 1, ''B'') ''A'' MInf PInf = Some (Inr (PInf, None)) \<and>
   mm_max_value (Suc 0) (NimGame 3) ''A'' None (- 1, ''B'') id = Some (Inr (MInf, id)) \<and>
   mm_min_value (Suc 0) (NimGame 3) ''A'' None (- 1, ''B'') id = Some (Inr (PInf, id)) \<and>
   mm_min_value (Suc 0) (NimGame 3) ''A'' (Some RandomAdversary) (- 1, ''B'') id
     = Some (Inl IndexError) \<and>
   mm_min_value (Suc 0) (NimGame 3) ''A'' (Some OptimalAdversary) (- 1, ''B'') id
     = Some (Inl TypeError) \<and>
   mm_min_value (Suc 0) (NimGame 3) ''A'' (Some (HeuristicAdversary (Fin \<circ> fst))) (- 1, ''B'') id
     = Some (Inl TypeError)"
proof -
  have t: "\<not> is_terminal (NimGame 3) (- 1, ''B'')"
    by (simp add: NimGame_def nim_is_terminal_def)
  have a: "actions (NimGame 3) (- 1, ''B'') = []"
    by (simp add: NimGame_def nim_actions_def)
  from empty_actions_sentinel [OF t a, of 0 "''A''" MInf PInf None id "Fin \<circ> fst"] t a
  show ?thesis by simp
qed

text \<open>
  The claim as stated fails: in the demonstration game the state of \<open>-1\<close> tokens is not
  terminal and has no action, and the minimizing evaluation with a \<open>RandomAdversary\<close>
  raises \<open>IndexError\<close> there instead of returning \<open>+\<infinity>\<close>.
\<close>

theorem empty_actions_adversary_counterexample:
  "\<not> is_terminal (NimGame 3) (- 1, ''B'') \<and> actions (NimGame 3) (- 1, ''B'') = [] \<and>
   mm_min_value 1 (NimGame 3) ''A'' (Some RandomAdversary) (- 1, ''B'') id = Some (Inl IndexError)"
  by (simp add: NimGame_def nim_is_terminal_def nim_actions_def random_choice_def)

section \<open>Adversary strategies return legal actions\<close>

lemma optimal_loop_member:
  "optimal_loop ev g s as ba bv r = Some (Inr ((ba', bv'), r')) \<Longrightarrow>
   ba' = ba \<or> (\<exists>a\<in>set as. ba' = Some a)"
proof (induction as arbitrary: ba bv r)
  case Nil
  then show ?case by simp
next
  case (Cons a as)
  then show ?case
    by (fastforce split: option.splits sum.splits if_splits)
qed

lemma heuristic_loop_member:
  "heuristic_loop h g s as ba bv = (ba', bv') \<Longrightarrow> ba' = ba \<or> (\<exists>a\<in>set as. ba' = Some a)"
proof (induction as arbitrary: ba bv)
  case Nil
  then show ?case by simp
next
  case (Cons a as)
  then show ?case
    by (fastforce simp: Let_def split: if_splits)
qed

lemma choose_action_member:
  assumes "choose_action adv state acts g evaluator opponent r = Some (Inr (Some c, r'))"
  shows "c \<in> set acts"
proof (cases adv)
  case OptimalAdversary
  with assms obtain bv where
    "optimal_loop evaluator g state acts None PInf r = Some (Inr ((Some c, bv), r'))"
    by (auto split: option.splits sum.splits)
  from optimal_loop_member [OF this] show ?thesis by auto
next
  case RandomAdversary
  with assms show ?thesis
    by (auto simp: random_choice_def split: if_splits)
next
  case (HeuristicAdversary h)
  with assms have "fst (heuristic_loop h g state acts None PInf) = Some c" by simp
  then obtain bv where "heuristic_loop h g state acts None PInf = (Some c, bv)"
    by (cases "heuristic_loop h g state acts None PInf") auto
  from heuristic_loop_member [OF this] show ?thesis by auto
qed

text \<open>
  A score below the current \<open>best_value\<close> makes the loop choose a listed action; without
  one the loop keeps what it had.
\<close>

lemma optimal_loop_some:
  "optimal_loop ev g s as ba bv r = Some (Inr ((ba', bv'), r')) \<Longrightarrow>
   \<exists>v\<in>set (optimal_scores ev g s as r). v < bv \<Longrightarrow>
   \<exists>a\<in>set as. ba' = Some a"
proof (induction as arbitrary: ba bv r)
  case Nil
  then show ?case by simp
next
  case (Cons a as)
  from Cons.prems(1) obtain val r1 where
    ev: "ev (result g s a) r = Some (Inr (val, r1))"
    by (auto split: option.splits sum.splits)
  show ?case
  proof (cases "val < bv")
    case True
    with Cons.prems(1) ev
    have "optimal_loop ev g s as (Some a) val r1 = Some (Inr ((ba', bv'), r'))" by simp
    from optimal_loop_member [OF this] show ?thesis by auto
  next
    case False
    with Cons.prems(1) ev
    have l: "optimal_loop ev g s as ba bv r1 = Some (Inr ((ba', bv'), r'))" by simp
    from Cons.prems(2) ev False have "\<exists>v\<in>set (optimal_scores ev g s as r1). v < bv" by auto
    from Cons.IH [OF l this] show ?thesis by auto
  qed
qed

lemma optimal_loop_keep:
  "optimal_loop ev g s as ba bv r = Some (Inr ((ba', bv'), r')) \<Longrightarrow>
   \<forall>v\<in>set (optimal_scores ev g s as r). \<not> v < bv \<Longrightarrow>
   ba' = ba"
proof (induction as arbitrary: r)
  case Nil
  then show ?case by simp
next
  case (Cons a as)
  from Cons.prems(1) obtain val r1 where
    ev: "ev (result g s a) r = Some (Inr (val, r1))"
    by (auto split: option.splits sum.splits)
  with Cons.prems(2) have nl: "\<not> val < bv"
    and rest: "\<forall>v\<in>set (optimal_scores ev g s as r1). \<not> v < bv" by auto
  from Cons.prems(1) ev nl
  have "optimal_loop ev g s as ba bv r1 = Some (Inr ((ba', bv'), r'))" by simp
  from Cons.IH [OF this rest] show ?case .
qed

lemma heuristic_loop_some:
  "\<exists>a\<in>set as. h (result g s a) < bv \<Longrightarrow>
   \<exists>a\<in>set as. fst (heuristic_loop h g s as ba bv) = Some a"
proof (induction as arbitrary: ba bv)
  case Nil
  then show ?case by simp
next
  case (Cons a as)
  show ?case
  proof (cases "h (result g s a) < bv")
    case True
    obtain ba' bv' where
      l: "heuristic_loop h g s as (Some a) (h (result g s a)) = (ba', bv')"
      by (cases "heuristic_loop h g s as (Some a) (h (result g s a))") auto
    from heuristic_loop_member [OF l] l True show ?thesis by (auto simp: Let_def)
  next
    case False
    with Cons.prems have "\<exists>a\<in>set as. h (result g s a) < bv" by auto
    from Cons.IH [OF this, of ba] False show ?thesis by (auto simp: Let_def)
  qed
qed

lemma heuristic_loop_keep:
  "\<forall>a\<in>set as. \<not> h (result g s a) < bv \<Longrightarrow> heuristic_loop h g s as ba bv = (ba, bv)"
  by (induction as) (auto simp: Let_def)

text \<open>
  Claim C7 (as amended). A call of \<open>choose_action\<close> of \<open>OptimalAdversary\<close> or of
  \<open>HeuristicAdversary\<close> that returns, returns an element of the list of actions when at
  least one score computed in that call for a listed action (the evaluator's for
  \<open>OptimalAdversary\<close>, the heuristic's for \<open>HeuristicAdversary\<close>) is below \<open>+\<infinity>\<close>, and
  \<open>None\<close> otherwise. \<open>RandomAdversary\<close> returns an element of every non-empty list, for
  every entropy source. On the empty list \<open>OptimalAdversary\<close> and \<open>HeuristicAdversary\<close>
  return \<open>None\<close> and \<open>RandomAdversary\<close> raises \<open>IndexError\<close>.
\<close>

theorem choose_action_in_actions:
  "(choose_action OptimalAdversary state acts g evaluator opponent r = Some (Inr (chosen, r')) \<longrightarrow>
      (if \<exists>v\<in>set (optimal_scores evaluator g state acts r). v < PInf
       then \<exists>a\<in>set acts. chosen = Some a else chosen = None)) \<and>
   (choose_action (HeuristicAdversary heuristic) state acts g evaluator opponent r
      = Some (Inr (chosen, r')) \<longrightarrow>
      (if \<exists>a\<in>set acts. heuristic (result g state a) < PInf
       then \<exists>a\<in>set acts. chosen = Some a else chosen = None)) \<and>
   (acts \<noteq> [] \<longrightarrow>
      (\<exists>a\<in>set acts. choose_action RandomAdversary state acts g evaluator opponent r
                        = Some (Inr (Some a, \<lambda>i. r (Suc i))))) \<and>
   choose_action OptimalAdversary state [] g evaluator opponent r = Some (Inr (None, r)) \<and>
   choose_action (HeuristicAdversary heuristic) state [] g evaluator opponent r
     = Some (Inr (None, r)) \<and>
   choose_action RandomAdversary state [] g evaluator opponent r = Some (Inl IndexError)"
proof -
  have opt: "if \<exists>v\<in>set (optimal_scores evaluator g state acts r). v < PInf
             then \<exists>a\<in>set acts. chosen = Some a else chosen = None"
    if "choose_action OptimalAdversary state acts g evaluator opponent r = Some (Inr (chosen, r'))"
  proof -
    from that obtain bv where
      l: "optimal_loop evaluator g state acts None PInf r = Some (Inr ((chosen, bv), r'))"
      by (auto split: option.splits sum.splits)
    show ?thesis
    proof (cases "\<exists>v\<in>set (optimal_scores evaluator g state acts r). v < PInf")
      case True
      from optimal_loop_some [OF l True] True show ?thesis by simp
    next
      case False
      then have "\<forall>v\<in>set (optimal_scores evaluator g state acts r). \<not> v < PInf" by simp
      from optimal_loop_keep [OF l this] False show ?thesis by simp
    qed
  qed
  have heu: "if \<exists>a\<in>set acts. heuristic (result g state a) < PInf
             then \<exists>a\<in>set acts. chosen = Some a else chosen = None"
    if "choose_action (HeuristicAdversary heuristic) state acts g evaluator opponent r
        = Some (Inr (chosen, r'))"
  proof -
    from that have c: "chosen = fst (heuristic_loop heuristic g state acts None PInf)" by simp
    show ?thesis
    proof (cases "\<exists>a\<in>set acts. heuristic (result g state a) < PInf")
      case True
      from heuristic_loop_some [OF True, of None] c True show ?thesis by simp
    next
      case False
      then have "\<forall>a\<in>set acts. \<not> heuristic (result g state a) < PInf" by simp
      from heuristic_loop_keep [OF this, of None] c False show ?thesis by simp
    qed
  qed
  have rnd: "\<exists>a\<in>set acts. choose_action RandomAdversary state acts g evaluator opponent r
                             = Some (Inr (Some a, \<lambda>i. r (Suc i)))"
    if "acts \<noteq> []"
  proof -
    from that have "acts ! (r 0 mod length acts) \<in> set acts" by simp
    moreover from that
    have "choose_action RandomAdversary state acts g evaluator opponent r
          = Some (Inr (Some (acts ! (r 0 mod length acts)), \<lambda>i. r (Suc i)))"
      by (simp add: random_choice_def)
    ultimately show ?thesis by blast
  qed
  have emp: "choose_action OptimalAdversary state [] g evaluator opponent r = Some (Inr (None, r))"
    "choose_action (HeuristicAdversary heuristic) state [] g evaluator opponent r
       = Some (Inr (None, r))"
    "choose_action RandomAdversary state [] g evaluator opponent r = Some (Inl IndexError)"
    by (simp_all add: random_choice_def)
  from opt heu rnd emp show ?thesis by blast
qed

theorem choose_action_in_actions_witness:
  "choose_action OptimalAdversary (4, ''B'') [1, 2, 3] (NimGame 3)
     (mm_max_value 4 (NimGame 3) ''A'' None) ''B'' id = Some (Inr (Some 1, id)) \<and>
   optimal_scores (mm_max_value 4 (NimGame 3) ''A'' None) (NimGame 3) (4, ''B'') [1, 2, 3] id
     = [Fin 1, Fin 1, Fin 1] \<and>
   choose_action (HeuristicAdversary (\<lambda>s. if fst s = 5 then Fin 0 else PInf)) (7, ''B'')
     [1, 2, 3] (NimGame 3) (mm_max_value 0 (NimGame 3) ''A'' None) ''B'' id
     = Some (Inr (Some 2, id)) \<and>
   (\<exists>a\<in>set [1, 2, 3]. Some (1::int) = Some a) \<and>
   (\<exists>a\<in>set [1, 2, 3]. Some (2::int) = Some a) \<and>
   (\<exists>a\<in>set [1, 2, 3]. choose_action RandomAdversary (7, ''B'') [1, 2, 3] (NimGame 3)
        (mm_max_value 0 (NimGame 3) ''A'' None) ''B'' id = Some (Inr (Some a, \<lambda>i. id (Suc i))))"
proof -
  let ?ev = "mm_max_value 4 (NimGame 3) ''A'' None"
  let ?h = "\<lambda>s :: nim_state. if fst s = 5 then Fin 0 else (PInf :: int ext)"
  have sc: "optimal_scores ?ev (NimGame 3) (4, ''B'') [1, 2, 3] id = [Fin 1, Fin 1, Fin 1]"
    by (simp add: eval_nat_numeral nim_defs upto.simps)
  have o: "choose_action OptimalAdversary (4, ''B'') [1, 2, 3] (NimGame 3) ?ev ''B'' id
           = Some (Inr (Some 1, id))"
    by (simp add: eval_nat_numeral nim_defs upto.simps)
  have h: "choose_action (HeuristicAdversary ?h) (7, ''B'') [1, 2, 3] (NimGame 3)
             (mm_max_value 0 (NimGame 3) ''A'' None) ''B'' id = Some (Inr (Some 2, id))"
    by (simp add: nim_defs)
  have hs: "\<exists>a\<in>set [1, 2, 3]. ?h (result (NimGame 3) (7, ''B'') a) < PInf"
    by (simp add: nim_defs)
  have ne: "[1, 2, 3] \<noteq> ([] :: int list)" by simp
  from choose_action_in_actions
         [of "(4, ''B'')" "[1, 2, 3]" "NimGame 3" ?ev "''B''" id "Some 1" id ?h] o sc
  have m1: "\<exists>a\<in>set [1, 2, 3]. Some (1::int) = Some a" by simp
  from choose_action_in_actions
         [of "(7, ''B'')" "[1, 2, 3]" "NimGame 3" "mm_max_value 0 (NimGame 3) ''A'' None"
             "''B''" id "Some 2" id ?h] h hs
  have m2: "\<exists>a\<in>set [1, 2, 3]. Some (2::int) = Some a" by simp
  from choose_action_in_actions
         [of "(7, ''B'')" "[1, 2, 3]" "NimGame 3" "mm_max_value 0 (NimGame 3) ''A'' None"
             "''B''" id "Some 2" id ?h] ne
  have m3: "\<exists>a\<in>set [1, 2, 3]. choose_action RandomAdversary (7, ''B'') [1, 2, 3] (NimGame 3)
        (mm_max_value 0 (NimGame 3) ''A'' None) ''B'' id = Some (Inr (Some a, \<lambda>i. id (Suc i)))"
    by blast
  from o sc h m1 m2 m3 show ?thesis by blast
qed

text \<open>
  The claim as stated fails on the empty list: \<open>OptimalAdversary\<close> returns \<open>None\<close>, which
  is not an element of the list. It also fails on a non-empty list when every score is
  \<open>+\<infinity>\<close>: a \<open>HeuristicAdversary\<close> with the constant heuristic \<open>+\<infinity>\<close> returns \<open>None\<close>.
\<close>

theorem choose_action_none_counterexample:
  "choose_action OptimalAdversary (7, ''A'') [] (NimGame 3)
     (mm_max_value 0 (NimGame 3) ''A'' None) ''B'' id = Some (Inr (None, id)) \<and>
   None \<notin> Some ` set ([] :: int list) \<and>
   choose_action (HeuristicAdversary (\<lambda>_. PInf)) (7, ''A'') [1, 2, 3] (NimGame 3)
     (mm_max_value 0 (NimGame 3) ''A'' None) ''B'' id = Some (Inr (None, id)) \<and>
   None \<notin> Some ` set ([1, 2, 3] :: int list)"
  by (simp add: image_iff)

section \<open>Termination on the demonstration game\<close>

text \<open>A loop returns when the evaluation of every child returns.\<close>

lemma max_loop_returns:
  "(\<And>a alpha beta. a \<in> set as \<Longrightarrow> ev (result g s a) alpha beta \<noteq> None) \<Longrightarrow>
   max_loop ev g s as v bm alpha beta \<noteq> None"
  by (induction as arbitrary: v bm alpha) (auto split: option.splits sum.splits)

lemma min_loop_returns:
  "(\<And>a alpha beta. a \<in> set as \<Longrightarrow> ev (result g s a) alpha beta \<noteq> None) \<Longrightarrow>
   min_loop ev g s as v bm alpha beta \<noteq> None"
  by (induction as arbitrary: v bm beta) (auto split: option.splits sum.splits)

lemma mm_max_loop_returns:
  "(\<And>a r. a \<in> set as \<Longrightarrow> ev (result g s a) r \<noteq> None) \<Longrightarrow>
   mm_max_loop ev g s as v r \<noteq> None"
  by (induction as arbitrary: v r) (auto split: option.splits sum.splits)

lemma mm_min_loop_returns:
  "(\<And>a r. a \<in> set as \<Longrightarrow> ev (result g s a) r \<noteq> None) \<Longrightarrow>
   mm_min_loop ev g s as v r \<noteq> None"
  by (induction as arbitrary: v r) (auto split: option.splits sum.splits)

lemma root_loop_returns:
  "(\<And>a r. a \<in> set as \<Longrightarrow> ev (result g s a) r \<noteq> None) \<Longrightarrow>
   root_loop ev g s as ba bv r \<noteq> None"
  by (induction as arbitrary: ba bv r) (auto split: option.splits sum.splits)

lemma optimal_loop_returns:
  "(\<And>a r. a \<in> set as \<Longrightarrow> ev (result g s a) r \<noteq> None) \<Longrightarrow>
   optimal_loop ev g s as ba bv r \<noteq> None"
  by (induction as arbitrary: ba bv r) (auto split: option.splits sum.splits)

lemma choose_action_returns:
  assumes "\<And>a r. a \<in> set acts \<Longrightarrow> ev (result g s a) r \<noteq> None"
  shows "choose_action adv s acts g ev opp r \<noteq> None"
proof (cases adv)
  case OptimalAdversary
  with optimal_loop_returns [of acts ev g s None PInf r] assms show ?thesis
    by (auto split: option.splits sum.splits)
next
  case RandomAdversary
  then show ?thesis by (simp add: random_choice_def)
next
  case (HeuristicAdversary h)
  then show ?thesis by simp
qed

lemma nim_child:
  assumes "a \<in> set (actions (NimGame m) (t, q))"
  shows "\<exists>q'. result (NimGame m) (t, q) a = (t - a, q') \<and> 0 \<le> t - a \<and> nat (t - a) < nat t"
  using assms by (auto simp: NimGame_def nim_actions_def nim_result_def)

lemma nim_ab_returns:
  "nat t < n \<Longrightarrow>
   max_value n (NimGame m) (t, q) p alpha beta \<noteq> None \<and>
   min_value n (NimGame m) (t, q) p alpha beta \<noteq> None"
proof (induction n arbitrary: t q alpha beta)
  case 0
  then show ?case by simp
next
  case (Suc n)
  have child: "min_value n (NimGame m) (result (NimGame m) (t, q) a) p al be \<noteq> None \<and>
               max_value n (NimGame m) (result (NimGame m) (t, q) a) p al be \<noteq> None"
    if "a \<in> set (actions (NimGame m) (t, q))" for a al be
  proof -
    from nim_child [OF that] obtain q' where
      r: "result (NimGame m) (t, q) a = (t - a, q')" and lt: "nat (t - a) < nat t" by auto
    from lt Suc.prems have "nat (t - a) < n" by linarith
    from Suc.IH [OF this] r show ?thesis by simp
  qed
  have u: "utility (NimGame m) (t, q) p \<noteq> Inl e" if "is_terminal (NimGame m) (t, q)" for e
    using that by (simp add: NimGame_def nim_is_terminal_def nim_utility_def)
  show ?case
  proof (cases "is_terminal (NimGame m) (t, q)")
    case True
    then show ?thesis by (auto split: sum.splits)
  next
    case False
    then show ?thesis
      using max_loop_returns [of "actions (NimGame m) (t, q)"
               "\<lambda>s' a b. min_value n (NimGame m) s' p a b" "NimGame m" "(t, q)"]
            min_loop_returns [of "actions (NimGame m) (t, q)"
               "\<lambda>s' a b. max_value n (NimGame m) s' p a b" "NimGame m" "(t, q)"]
            child
      by simp
  qed
qed

lemma nim_mm_returns:
  "nat t < n \<Longrightarrow>
   mm_max_value n (NimGame m) p adv (t, q) r \<noteq> None \<and>
   mm_min_value n (NimGame m) p adv (t, q) r \<noteq> None"
proof (induction n arbitrary: t q r)
  case 0
  then show ?case by simp
next
  case (Suc n)
  let ?g = "NimGame m"
  have child: "mm_min_value n ?g p adv (result ?g (t, q) a) r' \<noteq> None \<and>
               mm_max_value n ?g p adv (result ?g (t, q) a) r' \<noteq> None"
    if "a \<in> set (actions ?g (t, q))" for a r'
  proof -
    from nim_child [OF that] obtain q' where
      r: "result ?g (t, q) a = (t - a, q')" and lt: "nat (t - a) < nat t" by auto
    from lt Suc.prems have "nat (t - a) < n" by linarith
    from Suc.IH [OF this] r show ?thesis by simp
  qed
  show ?case
  proof (cases "is_terminal ?g (t, q)")
    case True
    then show ?thesis by (auto split: sum.splits)
  next
    case False
    have mx: "mm_max_value (Suc n) ?g p adv (t, q) r \<noteq> None"
      using False child
        mm_max_loop_returns [of "actions ?g (t, q)" "\<lambda>s' r'. mm_min_value n ?g p adv s' r'" ?g "(t, q)"]
      by simp
    have mn: "mm_min_value (Suc n) ?g p adv (t, q) r \<noteq> None"
    proof (cases adv)
      case None
      then show ?thesis
        using False child
          mm_min_loop_returns [of "actions ?g (t, q)" "\<lambda>s' r'. mm_max_value n ?g p adv s' r'" ?g "(t, q)"]
        by simp
    next
      case (Some ad)
      let ?c = "choose_action ad (t, q) (actions ?g (t, q)) ?g
                  (\<lambda>st r'. mm_max_value n ?g p adv st r') (to_move ?g (t, q)) r"
      have c: "?c \<noteq> None"
        using choose_action_returns [of "actions ?g (t, q)" "\<lambda>st r'. mm_max_value n ?g p adv st r'" ?g "(t, q)"]
          child by simp
      show ?thesis
      proof (cases ?c)
        case None
        with c show ?thesis by simp
      next
        case (Some res)
        show ?thesis
        proof (cases res)
          case (Inl e)
          with Some \<open>adv = Some ad\<close> False show ?thesis by simp
        next
          case (Inr pr)
          obtain chosen r' where pr: "pr = (chosen, r')" by (cases pr)
          show ?thesis
          proof (cases chosen)
            case None
            with Some Inr pr \<open>adv = Some ad\<close> False show ?thesis by simp
          next
            case (Some x)
            with \<open>?c = Some res\<close> Inr pr have "?c = Some (Inr (Some x, r'))" by simp
            from choose_action_member [OF this] have "x \<in> set (actions ?g (t, q))" .
            from child [OF this] have "mm_max_value n ?g p adv (result ?g (t, q) x) r' \<noteq> None"
              by simp
            with \<open>?c = Some (Inr (Some x, r'))\<close> \<open>adv = Some ad\<close> False show ?thesis by simp
          qed
        qed
      qed
    qed
    from mx mn show ?thesis by simp
  qed
qed

lemma alpha_beta_search_None:
  "(alpha_beta_search n g s = None) = (max_value n g s (to_move g s) MInf PInf = None)"
  by (simp add: alpha_beta_search_def split: option.splits sum.splits prod.splits)

lemma minimax_decision_None:
  "(minimax_decision n s g p adv r = None)
   = (root_loop (\<lambda>s' r'. mm_min_value n g p adv s' r') g s (actions g s) None MInf r = None)"
  by (simp add: minimax_decision_def split: option.splits sum.splits prod.splits)

text \<open>
  Claim C8. In the demonstration game every action strictly decreases the token count. From
  a state with a non-negative token count, \<open>alpha_beta_search\<close> returns (a value or an
  exception) with at most \<open>tokens + 1\<close> nested calls of \<open>max_value\<close>/\<open>min_value\<close>, and
  \<open>minimax_decision\<close> with at most \<open>tokens\<close> nested calls, for every \<open>max_take\<close>,
  player, adversary and entropy source: the call depth is bounded by the depth of the
  game's action tree.
\<close>

theorem nim_search_terminates:
  assumes "0 \<le> tokens"
  shows "alpha_beta_search (Suc (nat tokens)) (NimGame max_take) (tokens, mover) \<noteq> None \<and>
         minimax_decision (nat tokens) (tokens, mover) (NimGame max_take) player adversary r \<noteq> None"
proof -
  let ?g = "NimGame max_take"
  have "max_value (Suc (nat tokens)) ?g (tokens, mover) (to_move ?g (tokens, mover)) MInf PInf \<noteq> None"
    using nim_ab_returns [of tokens "Suc (nat tokens)"] by simp
  then have ab: "alpha_beta_search (Suc (nat tokens)) ?g (tokens, mover) \<noteq> None"
    by (simp only: alpha_beta_search_None not_False_eq_True)
  have "mm_min_value (nat tokens) ?g player adversary (result ?g (tokens, mover) a) r' \<noteq> None"
    if "a \<in> set (actions ?g (tokens, mover))" for a r'
  proof -
    from nim_child [OF that] obtain q' where
      r: "result ?g (tokens, mover) a = (tokens - a, q')" and lt: "nat (tokens - a) < nat tokens"
      by auto
    from nim_mm_returns [OF lt] r show ?thesis by simp
  qed
  then have "root_loop (\<lambda>s' r'. mm_min_value (nat tokens) ?g player adversary s' r') ?g
               (tokens, mover) (actions ?g (tokens, mover)) None MInf r \<noteq> None"
    using root_loop_returns [of "actions ?g (tokens, mover)"
             "\<lambda>s' r'. mm_min_value (nat tokens) ?g player adversary s' r'" ?g "(tokens, mover)"]
    by simp
  then have "minimax_decision (nat tokens) (tokens, mover) ?g player adversary r \<noteq> None"
    by (simp only: minimax_decision_None not_False_eq_True)
  with ab show ?thesis by simp
qed

theorem nim_search_terminates_witness:
  "(0::int) \<le> 7 \<and>
   alpha_beta_search (Suc (nat 7)) (NimGame 3) (7, ''A'') \<noteq> None \<and>
   minimax_decision (nat 7) (7, ''A'') (NimGame 3) ''A'' (Some RandomAdversary) id \<noteq> None"
proof -
  have h: "(0::int) \<le> 7" by simp
  from nim_search_terminates [OF h, of 3 "''A''" "''A''" "Some RandomAdversary" id] h
  show ?thesis by simp
qed

section \<open>Pruning does not change the result\<close>

text \<open>One step of each loop, once the child's evaluation is known.\<close>

lemma max_loop_Cons:
  "ev (result g s a) alpha beta = Some (Inr (c, m)) \<Longrightarrow>
   max_loop ev g s (a # as) v bm alpha beta =
     (if beta \<le> max v c then Some (Inr (max v c, if v < c then Some a else bm))
      else max_loop ev g s as (max v c) (if v < c then Some a else bm) (max alpha (max v c)) beta)"
  by (auto simp: max_def)

lemma min_loop_Cons:
  "ev (result g s a) alpha beta = Some (Inr (c, m)) \<Longrightarrow>
   min_loop ev g s (a # as) v bm alpha beta =
     (if min v c \<le> alpha then Some (Inr (min v c, if c < v then Some a else bm))
      else min_loop ev g s as (min v c) (if c < v then Some a else bm) alpha (min beta (min v c)))"
  by (auto simp: min_def)

lemma mm_max_loop_Cons_Some:
  "mm_max_loop ev g s (a # as) v r = Some (Inr (T, r')) \<Longrightarrow>
   \<exists>t r1. ev (result g s a) r = Some (Inr (t, r1)) \<and>
          mm_max_loop ev g s as (max v t) r1 = Some (Inr (T, r'))"
  by (auto split: option.splits sum.splits)

lemma mm_min_loop_Cons_Some:
  "mm_min_loop ev g s (a # as) v r = Some (Inr (T, r')) \<Longrightarrow>
   \<exists>t r1. ev (result g s a) r = Some (Inr (t, r1)) \<and>
          mm_min_loop ev g s as (min v t) r1 = Some (Inr (T, r'))"
  by (auto split: option.splits sum.splits)

lemma mm_max_loop_ge: "mm_max_loop ev g s as v r = Some (Inr (T, r')) \<Longrightarrow> v \<le> T"
proof (induction as arbitrary: v r)
  case Nil
  then show ?case by simp
next
  case (Cons a as)
  from mm_max_loop_Cons_Some [OF Cons.prems] obtain t r1 where
    "mm_max_loop ev g s as (max v t) r1 = Some (Inr (T, r'))" by auto
  from Cons.IH [OF this] show ?case by simp
qed

lemma mm_min_loop_le: "mm_min_loop ev g s as v r = Some (Inr (T, r')) \<Longrightarrow> T \<le> v"
proof (induction as arbitrary: v r)
  case Nil
  then show ?case by simp
next
  case (Cons a as)
  from mm_min_loop_Cons_Some [OF Cons.prems] obtain t r1 where
    "mm_min_loop ev g s as (min v t) r1 = Some (Inr (T, r'))" by auto
  from Cons.IH [OF this] show ?case by simp
qed

lemma max_loop_sound:
  assumes "\<And>a al be t r r'. \<lbrakk>a \<in> set as; al < be; ev' (result g s a) r = Some (Inr (t, r'))\<rbrakk>
             \<Longrightarrow> \<exists>c m. ev (result g s a) al be = Some (Inr (c, m)) \<and> within al be t c"
    and "mm_max_loop ev' g s as T0 r = Some (Inr (T, r'))"
    and "alpha0 < beta" and "v < beta" and "alpha = max alpha0 v"
    and "v \<le> alpha0 \<longrightarrow> T0 \<le> v" and "alpha0 < v \<longrightarrow> v = T0"
  shows "\<exists>vf bm'. max_loop ev g s as v bm alpha beta = Some (Inr (vf, bm')) \<and>
                  within alpha0 beta T vf"
  using assms
proof (induction as arbitrary: v bm alpha T0 r)
  case Nil
  then show ?case by (auto simp: within_def)
next
  case (Cons a as)
  from mm_max_loop_Cons_Some [OF Cons.prems(2)] obtain t r1 where
    e: "ev' (result g s a) r = Some (Inr (t, r1))" and
    rest: "mm_max_loop ev' g s as (max T0 t) r1 = Some (Inr (T, r'))" by auto
  from Cons.prems(3,4,5) have ab: "alpha < beta" by simp
  from Cons.prems(1) [OF _ ab e] obtain c m where
    ec: "ev (result g s a) alpha beta = Some (Inr (c, m))" and w: "within alpha beta t c"
    by auto
  note step = max_loop_Cons [of ev g s a alpha beta c m as v bm, OF ec]
  show ?case
  proof (cases "beta \<le> max v c")
    case True
    from mm_max_loop_ge [OF rest] have "t \<le> T" by simp
    with True w Cons.prems(3,4,5) have "within alpha0 beta T (max v c)"
      by (auto simp: within_def max_def split: if_splits)
    with True step show ?thesis by simp
  next
    case False
    have ch: "\<And>a al be t r r'. \<lbrakk>a \<in> set as; al < be; ev' (result g s a) r = Some (Inr (t, r'))\<rbrakk>
             \<Longrightarrow> \<exists>c m. ev (result g s a) al be = Some (Inr (c, m)) \<and> within al be t c"
      using Cons.prems(1) by simp
    from False have lt: "max v c < beta" by (simp only: not_le)
    from Cons.prems(5) have al: "max alpha (max v c) = max alpha0 (max v c)"
      by (auto simp: max_def)
    from w Cons.prems(3-7) False
    have j1: "max v c \<le> alpha0 \<longrightarrow> max T0 t \<le> max v c"
      by (auto simp: within_def max_def split: if_splits)
    from w Cons.prems(3-7) False
    have j2: "alpha0 < max v c \<longrightarrow> max v c = max T0 t"
      by (auto simp: within_def max_def split: if_splits)
    from Cons.IH [OF ch rest Cons.prems(3) lt al j1 j2] False step
    show ?thesis by simp
  qed
qed


lemma within_refl: "within alpha beta t t"
  by (simp add: within_def)

lemma min_loop_sound:
  assumes "\<And>a al be t r r'. \<lbrakk>a \<in> set as; al < be; ev' (result g s a) r = Some (Inr (t, r'))\<rbrakk>
             \<Longrightarrow> \<exists>c m. ev (result g s a) al be = Some (Inr (c, m)) \<and> within al be t c"
    and "mm_min_loop ev' g s as T0 r = Some (Inr (T, r'))"
    and "alpha < beta0" and "alpha < v" and "beta = min beta0 v"
    and "beta0 \<le> v \<longrightarrow> v \<le> T0" and "v < beta0 \<longrightarrow> v = T0"
  shows "\<exists>vf bm'. min_loop ev g s as v bm alpha beta = Some (Inr (vf, bm')) \<and>
                  within alpha beta0 T vf"
  using assms
proof (induction as arbitrary: v bm beta T0 r)
  case Nil
  then show ?case by (auto simp: within_def)
next
  case (Cons a as)
  from mm_min_loop_Cons_Some [OF Cons.prems(2)] obtain t r1 where
    e: "ev' (result g s a) r = Some (Inr (t, r1))" and
    rest: "mm_min_loop ev' g s as (min T0 t) r1 = Some (Inr (T, r'))" by auto
  from Cons.prems(3,4,5) have ab: "alpha < beta" by simp
  from Cons.prems(1) [OF _ ab e] obtain c m where
    ec: "ev (result g s a) alpha beta = Some (Inr (c, m))" and w: "within alpha beta t c"
    by auto
  note step = min_loop_Cons [of ev g s a alpha beta c m as v bm, OF ec]
  show ?case
  proof (cases "min v c \<le> alpha")
    case True
    from mm_min_loop_le [OF rest] have "T \<le> t" by simp
    with True w Cons.prems(3,4,5) have "within alpha beta0 T (min v c)"
      by (auto simp: within_def min_def split: if_splits)
    with True step show ?thesis by simp
  next
    case False
    have ch: "\<And>a al be t r r'. \<lbrakk>a \<in> set as; al < be; ev' (result g s a) r = Some (Inr (t, r'))\<rbrakk>
             \<Longrightarrow> \<exists>c m. ev (result g s a) al be = Some (Inr (c, m)) \<and> within al be t c"
      using Cons.prems(1) by simp
    from False have lt: "alpha < min v c" by (simp only: not_le)
    from Cons.prems(5) have be: "min beta (min v c) = min beta0 (min v c)"
      by (auto simp: min_def)
    from w Cons.prems(3-7) False
    have j1: "beta0 \<le> min v c \<longrightarrow> min v c \<le> min T0 t"
      by (auto simp: within_def min_def split: if_splits)
    from w Cons.prems(3-7) False
    have j2: "min v c < beta0 \<longrightarrow> min v c = min T0 t"
      by (auto simp: within_def min_def split: if_splits)
    from Cons.IH [OF ch rest Cons.prems(3) lt be j1 j2] False step
    show ?thesis by simp
  qed
qed

lemma ab_sound:
  "(\<forall>s al be t r r'. al < be \<longrightarrow> mm_max_value n g p None s r = Some (Inr (t, r')) \<longrightarrow>
      (\<exists>v m. max_value n g s p al be = Some (Inr (v, m)) \<and> within al be t v)) \<and>
   (\<forall>s al be t r r'. al < be \<longrightarrow> mm_min_value n g p None s r = Some (Inr (t, r')) \<longrightarrow>
      (\<exists>v m. min_value n g s p al be = Some (Inr (v, m)) \<and> within al be t v))"
proof (induction n)
  case 0
  show ?case by simp
next
  case (Suc n)
  have chmin: "\<exists>c m. min_value n g s' p al be = Some (Inr (c, m)) \<and> within al be t c"
    if "al < be" "mm_min_value n g p None s' r = Some (Inr (t, r'))" for s' al be t r r'
    using Suc.IH that by blast
  have chmax: "\<exists>c m. max_value n g s' p al be = Some (Inr (c, m)) \<and> within al be t c"
    if "al < be" "mm_max_value n g p None s' r = Some (Inr (t, r'))" for s' al be t r r'
    using Suc.IH that by blast
  have mx: "\<exists>v m. max_value (Suc n) g s p al be = Some (Inr (v, m)) \<and> within al be t v"
    if lt: "al < be" and run: "mm_max_value (Suc n) g p None s r = Some (Inr (t, r'))"
    for s al be t r r'
  proof (cases "is_terminal g s")
    case True
    with run have "utility g s p = Inr t" by (auto split: sum.splits)
    with True show ?thesis by (simp add: within_refl)
  next
    case False
    with run have loop: "mm_max_loop (\<lambda>s' r'. mm_min_value n g p None s' r') g s (actions g s) MInf r
                         = Some (Inr (t, r'))" by simp
    from lt have "MInf < be" by (cases be) auto
    from max_loop_sound [where ev' = "\<lambda>s' r'. mm_min_value n g p None s' r'"
        and ev = "\<lambda>s' a b. min_value n g s' p a b" and bm = None, OF _ loop lt this]
      chmin False
    show ?thesis by simp
  qed
  have mn: "\<exists>v m. min_value (Suc n) g s p al be = Some (Inr (v, m)) \<and> within al be t v"
    if lt: "al < be" and run: "mm_min_value (Suc n) g p None s r = Some (Inr (t, r'))"
    for s al be t r r'
  proof (cases "is_terminal g s")
    case True
    with run have "utility g s p = Inr t" by (auto split: sum.splits)
    with True show ?thesis by (simp add: within_refl)
  next
    case False
    with run have loop: "mm_min_loop (\<lambda>s' r'. mm_max_value n g p None s' r') g s (actions g s) PInf r
                         = Some (Inr (t, r'))" by simp
    from lt have "al < PInf" by (cases al) auto
    from min_loop_sound [where ev' = "\<lambda>s' r'. mm_max_value n g p None s' r'"
        and ev = "\<lambda>s' a b. max_value n g s' p a b" and bm = None, OF _ loop lt this]
      chmax False
    show ?thesis by simp
  qed
  from mx mn show ?case by blast
qed


lemma root_loop_Cons:
  "ev (result g s a) r = Some (Inr (t, r1)) \<Longrightarrow>
   root_loop ev g s (a # as) ba bv r =
     root_loop ev g s as (if bv < t then Some a else ba) (max bv t) r1"
  by (auto simp: max_def)

lemma root_loop_Cons_Some:
  "root_loop ev g s (a # as) ba bv r = Some (Inr (res, r')) \<Longrightarrow>
   \<exists>t r1. ev (result g s a) r = Some (Inr (t, r1))"
  by (auto split: option.splits sum.splits)

lemma root_loop_top:
  "root_loop ev g s as ba PInf r = Some (Inr ((ba', bv'), r')) \<Longrightarrow> ba' = ba \<and> bv' = PInf"
proof (induction as arbitrary: r)
  case Nil
  then show ?case by simp
next
  case (Cons a as)
  from root_loop_Cons_Some [OF Cons.prems] obtain t r1 where
    e: "ev (result g s a) r = Some (Inr (t, r1))" by auto
  from root_loop_Cons [of ev g s a r t r1 as ba PInf, OF e] Cons.prems
  have "root_loop ev g s as ba PInf r1 = Some (Inr ((ba', bv'), r'))" by simp
  from Cons.IH [OF this] show ?case .
qed

lemma root_loop_of_mm_max_loop:
  "mm_max_loop ev g s as bv r = Some (Inr (t, r')) \<Longrightarrow>
   \<exists>ba'. root_loop ev g s as ba bv r = Some (Inr ((ba', t), r'))"
proof (induction as arbitrary: ba bv r)
  case Nil
  then show ?case by simp
next
  case (Cons a as)
  from mm_max_loop_Cons_Some [OF Cons.prems] obtain u r1 where
    e: "ev (result g s a) r = Some (Inr (u, r1))" and
    rest: "mm_max_loop ev g s as (max bv u) r1 = Some (Inr (t, r'))" by auto
  from Cons.IH [OF rest, of "if bv < u then Some a else ba"]
    root_loop_Cons [of ev g s a r u r1 as ba bv, OF e]
  show ?case by simp
qed

lemma root_agrees:
  assumes "\<And>a al be t r r'. \<lbrakk>a \<in> set as; al < be; ev' (result g s a) r = Some (Inr (t, r'))\<rbrakk>
             \<Longrightarrow> \<exists>c m. ev (result g s a) al be = Some (Inr (c, m)) \<and> within al be t c"
    and "root_loop ev' g s as ba bv r = Some (Inr ((ba', bv'), r'))"
    and "bv < PInf"
  shows "max_loop ev g s as bv ba bv PInf = Some (Inr (bv', ba'))"
  using assms
proof (induction as arbitrary: ba bv r)
  case Nil
  then show ?case by simp
next
  case (Cons a as)
  from root_loop_Cons_Some [OF Cons.prems(2)] obtain t r1 where
    e: "ev' (result g s a) r = Some (Inr (t, r1))" by auto
  from root_loop_Cons [of ev' g s a r t r1 as ba bv, OF e] Cons.prems(2)
  have rl: "root_loop ev' g s as (if bv < t then Some a else ba) (max bv t) r1
            = Some (Inr ((ba', bv'), r'))" by simp
  from Cons.prems(1) [OF _ Cons.prems(3) e] obtain c m where
    ec: "ev (result g s a) bv PInf = Some (Inr (c, m))" and w: "within bv PInf t c"
    by auto
  from w have mx: "max bv c = max bv t"
    by (auto simp: within_def max_def ext_less_PInf split: if_splits)
  from w have cmp: "(bv < c) = (bv < t)"
    by (auto simp: within_def ext_less_PInf)
  note step = max_loop_Cons [of ev g s a bv PInf c m as bv ba, OF ec]
  show ?case
  proof (cases "max bv t = PInf")
    case True
    with Cons.prems(3) have "bv < t" by (auto simp: max_def split: if_splits)
    with rl True have "root_loop ev' g s as (Some a) PInf r1 = Some (Inr ((ba', bv'), r'))"
      by simp
    from root_loop_top [OF this] True step mx cmp \<open>bv < t\<close> show ?thesis by simp
  next
    case False
    have ch: "\<And>a al be t r r'. \<lbrakk>a \<in> set as; al < be; ev' (result g s a) r = Some (Inr (t, r'))\<rbrakk>
             \<Longrightarrow> \<exists>c m. ev (result g s a) al be = Some (Inr (c, m)) \<and> within al be t c"
      using Cons.prems(1) by simp
    from False have lt: "max bv t < PInf" by (simp only: ext_less_PInf not_False_eq_True)
    from Cons.IH [OF ch rl lt] step mx cmp False show ?thesis by simp
  qed
qed

lemma alpha_beta_search_Some:
  "max_value n g s (to_move g s) MInf PInf = Some (Inr (v, a)) \<Longrightarrow>
   alpha_beta_search n g s = Some (Inr a)"
  by (simp add: alpha_beta_search_def)

lemma minimax_decision_Some:
  "root_loop (\<lambda>s' r'. mm_min_value n g p adv s' r') g s (actions g s) None MInf r
     = Some (Inr ((a, v), r')) \<Longrightarrow>
   minimax_decision n s g p adv r = Some (Inr (a, r'))"
  by (simp add: minimax_decision_def)

lemma ab_child:
  "\<lbrakk>al < be; mm_min_value n g p None s' r = Some (Inr (t, r'))\<rbrakk>
   \<Longrightarrow> \<exists>c m. min_value n g s' p al be = Some (Inr (c, m)) \<and> within al be t c"
  using ab_sound [of n g p] by blast

lemma root_max_value:
  fixes g :: "('s, 'a, 'p, 'v::linorder) game"
  assumes "\<not> is_terminal g s"
    and "root_loop (\<lambda>s' r'. mm_min_value n g p None s' r') g s (actions g s) None MInf r
           = Some (Inr ((a, v), r'))"
  shows "max_value (Suc n) g s p MInf PInf = Some (Inr (v, a))"
proof -
  have "max_loop (\<lambda>s' a b. min_value n g s' p a b) g s (actions g s) MInf None MInf PInf
        = Some (Inr (v, a))"
  proof (rule root_agrees [where ev' = "\<lambda>s' r'. mm_min_value n g p None s' r'", OF _ assms(2)])
    fix a and al be :: "'v ext" and t r r'
    assume "al < be" and "mm_min_value n g p None (result g s a) r = Some (Inr (t, r'))"
    then show "\<exists>c m. min_value n g (result g s a) p al be = Some (Inr (c, m)) \<and> within al be t c"
      by (rule ab_child)
  qed simp
  with assms(1) show ?thesis by simp
qed

text \<open>
  Claim C1. Whenever the unpruned minimax sweep of the adversary-parameterized form (no
  adversary) returns a value \<open>t\<close> for a state, and the game enumerates no action on that
  state if it is terminal, the alpha-beta evaluation of the same state with the same fuel
  returns the same value \<open>t\<close> together with the very action that \<open>minimax_decision\<close>
  returns; \<open>alpha_beta_search\<close> returns that action when the player is the one to move.
  Pruning changes the nodes visited, not the result.
\<close>

theorem pruning_equivalence:
  assumes "mm_max_value (Suc n) g p None s r = Some (Inr (t, r'))"
    and "is_terminal g s \<longrightarrow> actions g s = []"
  shows "\<exists>a. max_value (Suc n) g s p MInf PInf = Some (Inr (t, a)) \<and>
             minimax_decision n s g p None r = Some (Inr (a, r')) \<and>
             (p = to_move g s \<longrightarrow> alpha_beta_search (Suc n) g s = Some (Inr a))"
proof (cases "is_terminal g s")
  case True
  with assms(1) have "utility g s p = Inr t" and "r' = r" by (auto split: sum.splits)
  with True assms(2) show ?thesis
    by (auto simp: minimax_decision_def alpha_beta_search_def)
next
  case False
  with assms(1) have "mm_max_loop (\<lambda>s' r'. mm_min_value n g p None s' r') g s (actions g s) MInf r
                      = Some (Inr (t, r'))" by simp
  from root_loop_of_mm_max_loop [OF this, of None] obtain a where
    rl: "root_loop (\<lambda>s' r'. mm_min_value n g p None s' r') g s (actions g s) None MInf r
         = Some (Inr ((a, t), r'))" by auto
  from root_max_value [OF False rl] have mv: "max_value (Suc n) g s p MInf PInf = Some (Inr (t, a))" .
  from minimax_decision_Some [OF rl] have md: "minimax_decision n s g p None r = Some (Inr (a, r'))" .
  from mv have "p = to_move g s \<longrightarrow> alpha_beta_search (Suc n) g s = Some (Inr a)"
    using alpha_beta_search_Some [of "Suc n" g s t a] by auto
  with mv md show ?thesis by blast
qed

theorem pruning_equivalence_witness:
  "mm_max_value (Suc 7) (NimGame 3) ''A'' None (7, ''A'') id = Some (Inr (Fin 1, id)) \<and>
   \<not> is_terminal (NimGame 3) (7, ''A'') \<and>
   to_move (NimGame 3) (7, ''A'') = ''A'' \<and>
   (\<exists>a. max_value (Suc 7) (NimGame 3) (7, ''A'') ''A'' MInf PInf = Some (Inr (Fin 1, a)) \<and>
        minimax_decision 7 (7, ''A'') (NimGame 3) ''A'' None id = Some (Inr (a, id)) \<and>
        alpha_beta_search (Suc 7) (NimGame 3) (7, ''A'') = Some (Inr a))"
proof -
  have run: "mm_max_value (Suc 7) (NimGame 3) ''A'' None (7, ''A'') id = Some (Inr (Fin 1, id))"
    by (simp add: eval_nat_numeral nim_defs upto.simps)
  have nt: "\<not> is_terminal (NimGame 3) (7, ''A'')"
    by (simp add: nim_defs)
  then have h: "is_terminal (NimGame 3) (7, ''A'') \<longrightarrow> actions (NimGame 3) (7, ''A'') = []"
    by simp
  have mv: "to_move (NimGame 3) (7, ''A'') = ''A''"
    by (simp add: nim_defs)
  from pruning_equivalence [OF run h] run nt mv show ?thesis by auto
qed

section \<open>Ties go to the first action\<close>

lemma root_loop_no_update:
  "list_all2 (\<lambda>a v. ev (result g s a) r = Some (Inr (v, r))) as vs \<Longrightarrow>
   \<forall>v\<in>set vs. v \<le> bv \<Longrightarrow>
   root_loop ev g s as ba bv r = Some (Inr ((ba, bv), r))"
proof (induction as vs rule: list_all2_induct)
  case Nil
  then show ?case by simp
next
  case (Cons a as v vs)
  from Cons.prems have "v \<le> bv" by simp
  then have "\<not> bv < v" and "max bv v = bv" by (auto simp: max_def)
  with root_loop_Cons [of ev g s a r v r as ba bv, OF Cons.hyps(1)] Cons.IH Cons.prems
  show ?case by simp
qed

lemma root_loop_first_best:
  "list_all2 (\<lambda>a v. ev (result g s a) r = Some (Inr (v, r))) as vs \<Longrightarrow>
   i < length vs \<Longrightarrow> \<forall>j<length vs. vs ! j \<le> vs ! i \<Longrightarrow> \<forall>j<i. vs ! j < vs ! i \<Longrightarrow>
   bv < vs ! i \<Longrightarrow>
   root_loop ev g s as ba bv r = Some (Inr ((Some (as ! i), vs ! i), r))"
proof (induction as vs arbitrary: i ba bv rule: list_all2_induct)
  case Nil
  then show ?case by simp
next
  case (Cons a as v vs)
  note step = root_loop_Cons [of ev g s a r v r as ba bv, OF Cons.hyps(1)]
  show ?case
  proof (cases i)
    case 0
    with Cons.prems(4) have lt: "bv < v" by simp
    have "\<forall>w\<in>set vs. w \<le> v"
    proof
      fix w assume "w \<in> set vs"
      then obtain k where "k < length vs" "vs ! k = w" by (auto simp: in_set_conv_nth)
      with Cons.prems(2) [rule_format, of "Suc k"] 0 show "w \<le> v" by simp
    qed
    note nu = root_loop_no_update [where ev = ev and g = g and s = s and r = r and ba = "Some a",
        OF Cons.hyps(2) this]
    from lt have "max bv v = v" by (auto simp: max_def)
    with lt have s1: "root_loop ev g s (a # as) ba bv r = root_loop ev g s as (Some a) v r"
      unfolding step by simp
    show ?thesis unfolding 0 s1 using nu by simp
  next
    case (Suc k)
    from Cons.prems(1) Suc have k: "k < length vs" by simp
    from Cons.prems(2) Suc have le: "\<forall>j<length vs. vs ! j \<le> vs ! k" by auto
    from Cons.prems(3) Suc have ltk: "\<forall>j<k. vs ! j < vs ! k" by auto
    from Cons.prems(3) [rule_format, of 0] Suc have "v < vs ! k" by simp
    with Cons.prems(4) Suc have bv: "max bv v < vs ! k" by simp
    note ih = Cons.IH [of k "max bv v" "if bv < v then Some a else ba", OF k le ltk bv]
    show ?thesis unfolding Suc step using ih by simp
  qed
qed

text \<open>
  Claim C5. Let the root be non-terminal, let \<open>vs\<close> be the unpruned minimax values of the
  root's actions in enumeration order, and let \<open>i\<close> be the first index that reaches the
  best value (every value is at most \<open>vs ! i\<close>, every earlier one strictly smaller), that
  best value being above \<open>-\<infinity>\<close> as it is when utilities are bounded and play reaches
  terminal states. Then \<open>minimax_decision\<close> returns action number \<open>i\<close>, and so does
  \<open>alpha_beta_search\<close> when the player is the one to move: a later action that only ties
  never replaces the first.
\<close>

theorem tie_break_first_best:
  assumes "\<not> is_terminal g s"
    and "list_all2 (\<lambda>a v. mm_min_value n g p None (result g s a) r = Some (Inr (v, r)))
           (actions g s) vs"
    and "i < length vs"
    and "\<forall>j<length vs. vs ! j \<le> vs ! i"
    and "\<forall>j<i. vs ! j < vs ! i"
    and "MInf < vs ! i"
  shows "minimax_decision n s g p None r = Some (Inr (Some (actions g s ! i), r)) \<and>
         (p = to_move g s \<longrightarrow>
            alpha_beta_search (Suc n) g s = Some (Inr (Some (actions g s ! i))))"
proof -
  from root_loop_first_best
    [where ev = "\<lambda>s' r'. mm_min_value n g p None s' r'" and g = g and s = s and r = r
       and ba = None, OF assms(2-6)]
  have rl: "root_loop (\<lambda>s' r'. mm_min_value n g p None s' r') g s (actions g s) None MInf r
            = Some (Inr ((Some (actions g s ! i), vs ! i), r))" .
  from minimax_decision_Some [OF rl]
  have md: "minimax_decision n s g p None r = Some (Inr (Some (actions g s ! i), r))" .
  from root_max_value [OF assms(1) rl]
  have "max_value (Suc n) g s p MInf PInf = Some (Inr (vs ! i, Some (actions g s ! i)))" .
  then have "p = to_move g s \<longrightarrow>
     alpha_beta_search (Suc n) g s = Some (Inr (Some (actions g s ! i)))"
    using alpha_beta_search_Some [of "Suc n" g s "vs ! i" "Some (actions g s ! i)"] by auto
  with md show ?thesis by simp
qed

theorem tie_break_first_best_witness:
  "\<not> is_terminal (NimGame 3) (4, ''A'') \<and>
   list_all2 (\<lambda>a v. mm_min_value 4 (NimGame 3) ''A'' None (result (NimGame 3) (4, ''A'') a) id
                      = Some (Inr (v, id)))
     (actions (NimGame 3) (4, ''A'')) [Fin (- 1), Fin (- 1), Fin (- 1)] \<and>
   minimax_decision 4 (4, ''A'') (NimGame 3) ''A'' None id = Some (Inr (Some 1, id)) \<and>
   alpha_beta_search (Suc 4) (NimGame 3) (4, ''A'') = Some (Inr (Some 1))"
proof -
  let ?vs = "[Fin (- 1), Fin (- 1), Fin (- 1)] :: int ext list"
  have nt: "\<not> is_terminal (NimGame 3) (4, ''A'')"
    by (simp add: nim_defs)
  have acts: "actions (NimGame 3) (4, ''A'') = [1, 2, 3]"
    by (simp add: nim_defs upto.simps)
  have vals: "list_all2 (\<lambda>a v. mm_min_value 4 (NimGame 3) ''A'' None
                                 (result (NimGame 3) (4, ''A'') a) id = Some (Inr (v, id)))
                (actions (NimGame 3) (4, ''A'')) ?vs"
    unfolding acts by (simp add: eval_nat_numeral nim_defs upto.simps)
  have i: "0 < length ?vs" by simp
  have le: "\<forall>j<length ?vs. ?vs ! j \<le> ?vs ! 0"
    by (simp add: nth_Cons split: nat.splits)
  have lt: "\<forall>j<0. ?vs ! j < ?vs ! 0" by simp
  have fin: "MInf < ?vs ! 0" by simp
  have mv: "''A'' = to_move (NimGame 3) (4, ''A'')" by (simp add: nim_defs)
  from tie_break_first_best [OF nt vals i le lt fin] nt vals acts mv
  show ?thesis by simp
qed

section \<open>The optimal adversary reproduces true minimization\<close>

text \<open>In a conforming game every value the unpruned search returns is finite.\<close>

lemma mm_max_loop_fin:
  assumes "\<And>a. a \<in> set as \<Longrightarrow>
             ev (result g s a) r = None \<or> (\<exists>u. ev (result g s a) r = Some (Inr (Fin u, r)))"
    and "(v = MInf \<and> as \<noteq> []) \<or> (\<exists>u. v = Fin u)"
  shows "mm_max_loop ev g s as v r = None \<or>
         (\<exists>u. mm_max_loop ev g s as v r = Some (Inr (Fin u, r)))"
  using assms
proof (induction as arbitrary: v)
  case Nil
  then show ?case by auto
next
  case (Cons a as)
  from Cons.prems(1) [of a]
  consider "ev (result g s a) r = None" | u where "ev (result g s a) r = Some (Inr (Fin u, r))"
    by auto
  then show ?case
  proof cases
    case 1
    then show ?thesis by simp
  next
    case 2
    from Cons.prems(2) have "\<exists>w. max v (Fin u) = Fin w" by auto
    then have "(max v (Fin u) = MInf \<and> as \<noteq> []) \<or> (\<exists>w. max v (Fin u) = Fin w)" by simp
    from Cons.IH [OF _ this] Cons.prems(1) 2 show ?thesis by simp
  qed
qed

lemma mm_min_loop_fin:
  assumes "\<And>a. a \<in> set as \<Longrightarrow>
             ev (result g s a) r = None \<or> (\<exists>u. ev (result g s a) r = Some (Inr (Fin u, r)))"
    and "(v = PInf \<and> as \<noteq> []) \<or> (\<exists>u. v = Fin u)"
  shows "mm_min_loop ev g s as v r = None \<or>
         (\<exists>u. mm_min_loop ev g s as v r = Some (Inr (Fin u, r)))"
  using assms
proof (induction as arbitrary: v)
  case Nil
  then show ?case by auto
next
  case (Cons a as)
  from Cons.prems(1) [of a]
  consider "ev (result g s a) r = None" | u where "ev (result g s a) r = Some (Inr (Fin u, r))"
    by auto
  then show ?case
  proof cases
    case 1
    then show ?thesis by simp
  next
    case 2
    from Cons.prems(2) have "\<exists>w. min v (Fin u) = Fin w" by auto
    then have "(min v (Fin u) = PInf \<and> as \<noteq> []) \<or> (\<exists>w. min v (Fin u) = Fin w)" by simp
    from Cons.IH [OF _ this] Cons.prems(1) 2 show ?thesis by simp
  qed
qed

lemma fin_values:
  assumes "conforming g p S"
  shows "s \<in> S \<Longrightarrow>
    (mm_max_value n g p None s r = None \<or>
       (\<exists>u. mm_max_value n g p None s r = Some (Inr (Fin u, r)))) \<and>
    (mm_min_value n g p None s r = None \<or>
       (\<exists>u. mm_min_value n g p None s r = Some (Inr (Fin u, r))))"
proof (induction n arbitrary: s)
  case 0
  show ?case by simp
next
  case (Suc n)
  show ?case
  proof (cases "is_terminal g s")
    case True
    with assms Suc.prems obtain u where "utility g s p = Inr (Fin u)"
      unfolding conforming_def by blast
    with True show ?thesis by simp
  next
    case False
    with assms Suc.prems have ne: "actions g s \<noteq> []"
      and cl: "\<And>a. a \<in> set (actions g s) \<Longrightarrow> result g s a \<in> S"
      unfolding conforming_def by blast+
    have mx: "mm_max_loop (\<lambda>s' r'. mm_min_value n g p None s' r') g s (actions g s) MInf r = None \<or>
          (\<exists>u. mm_max_loop (\<lambda>s' r'. mm_min_value n g p None s' r') g s (actions g s) MInf r
                 = Some (Inr (Fin u, r)))"
      by (rule mm_max_loop_fin) (use Suc.IH cl ne in auto)
    have mn: "mm_min_loop (\<lambda>s' r'. mm_max_value n g p None s' r') g s (actions g s) PInf r = None \<or>
          (\<exists>u. mm_min_loop (\<lambda>s' r'. mm_max_value n g p None s' r') g s (actions g s) PInf r
                 = Some (Inr (Fin u, r)))"
      by (rule mm_min_loop_fin) (use Suc.IH cl ne in auto)
    from mx mn False show ?thesis by simp
  qed
qed

lemma mm_max_loop_cong:
  "(\<And>a r. a \<in> set as \<Longrightarrow> ev1 (result g s a) r = ev2 (result g s a) r) \<Longrightarrow>
   mm_max_loop ev1 g s as v r = mm_max_loop ev2 g s as v r"
  by (induction as arbitrary: v r) (auto split: option.splits sum.splits)

lemma root_loop_cong:
  "(\<And>a r. a \<in> set as \<Longrightarrow> ev1 (result g s a) r = ev2 (result g s a) r) \<Longrightarrow>
   root_loop ev1 g s as ba bv r = root_loop ev2 g s as ba bv r"
  by (induction as arbitrary: ba bv r) (auto split: option.splits sum.splits)

lemma optimal_loop_cong:
  "(\<And>a r. a \<in> set as \<Longrightarrow> ev1 (result g s a) r = ev2 (result g s a) r) \<Longrightarrow>
   optimal_loop ev1 g s as ba bv r = optimal_loop ev2 g s as ba bv r"
  by (induction as arbitrary: ba bv r) (auto split: option.splits sum.splits)

lemma optimal_vs_min_loop:
  assumes "\<And>a. a \<in> set as \<Longrightarrow>
             ev (result g s a) r = None \<or> (\<exists>u. ev (result g s a) r = Some (Inr (Fin u, r)))"
    and "(ba = None \<and> bv = PInf) \<or> (\<exists>c. ba = Some c \<and> ev (result g s c) r = Some (Inr (bv, r)))"
  shows "(optimal_loop ev g s as ba bv r = None \<and> mm_min_loop ev g s as bv r = None) \<or>
         (\<exists>ba' bv'. optimal_loop ev g s as ba bv r = Some (Inr ((ba', bv'), r)) \<and>
                    mm_min_loop ev g s as bv r = Some (Inr (bv', r)) \<and>
                    ((ba' = None \<and> bv' = PInf) \<or>
                     (\<exists>c. ba' = Some c \<and> ev (result g s c) r = Some (Inr (bv', r)))))"
  using assms
proof (induction as arbitrary: ba bv)
  case Nil
  then show ?case by simp
next
  case (Cons a as)
  have ch: "\<And>a. a \<in> set as \<Longrightarrow>
             ev (result g s a) r = None \<or> (\<exists>u. ev (result g s a) r = Some (Inr (Fin u, r)))"
    using Cons.prems(1) by simp
  from Cons.prems(1) [of a]
  consider "ev (result g s a) r = None" | u where "ev (result g s a) r = Some (Inr (Fin u, r))"
    by auto
  then show ?case
  proof cases
    case 1
    then show ?thesis by simp
  next
    case 2
    show ?thesis
    proof (cases "Fin u < bv")
      case True
      then have m: "min bv (Fin u) = Fin u" by (auto simp: min_def)
      have "(Some a = None \<and> Fin u = PInf) \<or>
            (\<exists>c. Some a = Some c \<and> ev (result g s c) r = Some (Inr (Fin u, r)))"
        using 2 by simp
      from Cons.IH [OF ch this] 2 True m show ?thesis by simp
    next
      case False
      then have m: "min bv (Fin u) = bv" by (auto simp: min_def)
      from Cons.IH [OF ch Cons.prems(2)] 2 False m show ?thesis by simp
    qed
  qed
qed


lemma optimal_eq_none:
  assumes "conforming g p S"
  shows "s \<in> S \<Longrightarrow>
    mm_max_value n g p (Some OptimalAdversary) s r = mm_max_value n g p None s r \<and>
    mm_min_value n g p (Some OptimalAdversary) s r = mm_min_value n g p None s r"
proof (induction n arbitrary: s r)
  case 0
  show ?case by simp
next
  case (Suc n)
  let ?evO = "\<lambda>st r'. mm_max_value n g p (Some OptimalAdversary) st r'"
  let ?evN = "\<lambda>st r'. mm_max_value n g p None st r'"
  show ?case
  proof (cases "is_terminal g s")
    case True
    then show ?thesis by simp
  next
    case False
    with assms Suc.prems have ne: "actions g s \<noteq> []"
      and cl: "\<And>a. a \<in> set (actions g s) \<Longrightarrow> result g s a \<in> S"
      unfolding conforming_def by blast+
    have mx: "mm_max_loop (\<lambda>s' r'. mm_min_value n g p (Some OptimalAdversary) s' r') g s
                (actions g s) MInf r
              = mm_max_loop (\<lambda>s' r'. mm_min_value n g p None s' r') g s (actions g s) MInf r"
      by (rule mm_max_loop_cong) (use Suc.IH cl in simp)
    have ol: "optimal_loop ?evO g s (actions g s) None PInf r
              = optimal_loop ?evN g s (actions g s) None PInf r"
      by (rule optimal_loop_cong) (use Suc.IH cl in simp)
    have fin: "?evN (result g s a) r = None \<or> (\<exists>u. ?evN (result g s a) r = Some (Inr (Fin u, r)))"
      if "a \<in> set (actions g s)" for a
      using fin_values [OF assms cl [OF that], of n r] by simp
    have minfin: "mm_min_loop ?evN g s (actions g s) PInf r = None \<or>
          (\<exists>u. mm_min_loop ?evN g s (actions g s) PInf r = Some (Inr (Fin u, r)))"
      by (rule mm_min_loop_fin) (use fin ne in auto)
    from optimal_vs_min_loop [where ev = ?evN and g = g and s = s and r = r
        and as = "actions g s" and ba = None and bv = PInf] fin
    consider
      (none) "optimal_loop ?evN g s (actions g s) None PInf r = None"
             "mm_min_loop ?evN g s (actions g s) PInf r = None"
    | (some) ba' bv' where
        "optimal_loop ?evN g s (actions g s) None PInf r = Some (Inr ((ba', bv'), r))"
        "mm_min_loop ?evN g s (actions g s) PInf r = Some (Inr (bv', r))"
        "(ba' = None \<and> bv' = PInf) \<or>
         (\<exists>c. ba' = Some c \<and> ?evN (result g s c) r = Some (Inr (bv', r)))"
      by auto
    then have mn: "mm_min_value (Suc n) g p (Some OptimalAdversary) s r
                   = mm_min_value (Suc n) g p None s r"
    proof cases
      case none
      with ol False show ?thesis by simp
    next
      case some
      from minfin some(2) have "bv' \<noteq> PInf" by auto
      with some(3) obtain c where c: "ba' = Some c"
        and ev: "?evN (result g s c) r = Some (Inr (bv', r))" by auto
      from optimal_loop_member [OF some(1)] c have "c \<in> set (actions g s)" by auto
      from Suc.IH [OF cl [OF this], of r] ev
      have "mm_max_value n g p (Some OptimalAdversary) (result g s c) r = Some (Inr (bv', r))"
        by simp
      with ol some(1,2) c False show ?thesis by simp
    qed
    from mx mn False show ?thesis by simp
  qed
qed

text \<open>
  Claim C2. For every Game Model that conforms on a set of states, every state of that set,
  every player, every fuel and entropy source, \<open>minimax_decision\<close> with an
  \<open>OptimalAdversary\<close> gives exactly the outcome of \<open>minimax_decision\<close> with no adversary:
  the same action (first-seen on ties), or both run out of fuel.
\<close>

theorem optimal_adversary_degenerate:
  assumes "conforming g player S" and "state \<in> S"
  shows "minimax_decision n state g player (Some OptimalAdversary) r
         = minimax_decision n state g player None r"
proof (cases "is_terminal g state")
  case True
  with assms have "actions g state = []" unfolding conforming_def by blast
  then show ?thesis by (simp add: minimax_decision_def)
next
  case False
  with assms have cl: "\<And>a. a \<in> set (actions g state) \<Longrightarrow> result g state a \<in> S"
    unfolding conforming_def by blast
  have "root_loop (\<lambda>s' r'. mm_min_value n g player (Some OptimalAdversary) s' r') g state
          (actions g state) None MInf r
        = root_loop (\<lambda>s' r'. mm_min_value n g player None s' r') g state
          (actions g state) None MInf r"
    by (rule root_loop_cong) (use optimal_eq_none [OF assms(1)] cl in simp)
  then show ?thesis by (simp add: minimax_decision_def)
qed

theorem optimal_adversary_degenerate_witness:
  "conforming (NimGame 3) ''A'' {s. 0 \<le> fst s} \<and>
   ((7, ''A'') :: nim_state) \<in> {s. 0 \<le> fst s} \<and>
   minimax_decision 7 (7, ''A'') (NimGame 3) ''A'' (Some OptimalAdversary) id
     = minimax_decision 7 (7, ''A'') (NimGame 3) ''A'' None id"
proof -
  have c: "conforming (NimGame 3) ''A'' {s. 0 \<le> fst s}"
    by (auto simp: conforming_def nim_defs)
  have s: "(7, ''A'') \<in> {s :: nim_state. 0 \<le> fst s}" by simp
  from optimal_adversary_degenerate [OF c s, of 7 id] c s show ?thesis by simp
qed

end
